theory Spec2Isabelle
  imports Complex_Main "HOL-Library.Word"
begin

section \<open>Values\<close>

text \<open>
  A file's content and every binary frame is a sequence of bytes (\<open>Uint8Array\<close>).
\<close>

type_synonym bytes = "8 word list"

text \<open>
  The progress value is a JavaScript number. The component only ever stores \<open>0\<close>,
  \<open>100\<close> or \<open>(a / b) * 100\<close> for byte counts \<open>a\<close> and \<open>b\<close>, so the values
  that occur are the finite ones, \<open>Infinity\<close> (\<open>a / 0\<close> with \<open>a > 0\<close>) and \<open>NaN\<close>
  (\<open>0 / 0\<close>). Finite values are rationals; every arithmetic result is passed through
  \<open>fl\<close>, the rounding of the exact result to a double, which stays a parameter.
\<close>

datatype jsnum = Num rat | PosInfinity | NaN

definition divide_js :: "(rat \<Rightarrow> rat) \<Rightarrow> nat \<Rightarrow> nat \<Rightarrow> jsnum" where
  "divide_js fl a b =
     (if b = 0 then (if a = 0 then NaN else PosInfinity)
      else Num (fl (rat_of_nat a / rat_of_nat b)))"

fun times100 :: "(rat \<Rightarrow> rat) \<Rightarrow> jsnum \<Rightarrow> jsnum" where
  "times100 fl (Num x) = Num (fl (x * 100))"
| "times100 fl PosInfinity = PosInfinity"
| "times100 fl NaN = NaN"

text \<open>\<open>(a / b) * 100\<close>, as both \<open>setProgress\<close> calls compute it.\<close>

definition percent :: "(rat \<Rightarrow> rat) \<Rightarrow> nat \<Rightarrow> nat \<Rightarrow> jsnum" where
  "percent fl a b = times100 fl (divide_js fl a b)"

text \<open>
  The order of JavaScript's \<open>\<le>\<close> on these values: every comparison with \<open>NaN\<close> is false.
\<close>

fun le_js :: "jsnum \<Rightarrow> jsnum \<Rightarrow> bool" where
  "le_js (Num x) (Num y) = (x \<le> y)"
| "le_js (Num x) PosInfinity = True"
| "le_js PosInfinity PosInfinity = True"
| "le_js _ _ = False"

section \<open>The component's state\<close>

datatype conn_status = Disconnected | Connecting | Connected

datatype transfer_mode = Idle | Sending | Receiving

text \<open>\<open>RTCDataChannel.readyState\<close> and \<open>RTCPeerConnection.connectionState\<close>.\<close>

datatype ready_state = RsConnecting | RsOpen | RsClosing | RsClosed

datatype pc_state = PcNew | PcConnecting | PcConnected | PcDisconnected | PcFailed | PcClosed

text \<open>
  A frame on the data channel is a string or binary. A string frame is represented by
  what the receiver's \<open>JSON.parse\<close> and the test of \<open>msg.type\<close> make of it: a metadata
  object with its \<open>name\<close> and \<open>size\<close>, an eof object, a value of any other type, or a
  text for which the \<open>try\<close> block throws.
\<close>

datatype control = Metadata string nat | Eof | OtherType | Unparseable

datatype message = Text control | Binary bytes

text \<open>
  The data channel object: what the component reads of it (\<open>readyState\<close>,
  \<open>bufferedAmount\<close>), the handler it installs (\<open>onbufferedamountlow\<close>, set or \<open>null\<close>)
  and the frames handed to \<open>send\<close>, oldest first.
\<close>

record channel =
  readyState :: ready_state
  bufferedAmount :: nat
  onbufferedamountlow :: bool
  sent :: "message list"

text \<open>
  The peer connection object: whether \<open>close\<close> was called on it, its \<open>signalingState\<close>,
  the remote description it has accepted, and the candidates handed to
  \<open>addIceCandidate\<close>, oldest first, whether or not the browser accepts them.
\<close>

datatype signaling_state = Stable | HaveLocalOffer | HaveRemoteOffer | SignalingClosed

record connection =
  closed :: bool
  signalingState :: signaling_state
  remoteDescription :: "string option"
  candidates :: "string list"

text \<open>
  The state of one \<open>FileJet\<close> component: the React state, the two refs, the objects the
  refs point to, the variables closed over by \<open>setupDataChannelEvents\<close>
  (\<open>receivedChunks\<close>, \<open>bytesReceived\<close>, \<open>expectedSize\<close>) and by \<open>handleSendFile\<close>
  (\<open>reader\<close>: the chunks the file's stream has not delivered yet; \<open>offset\<close>; \<open>sendSize\<close>:
  \<open>file.size\<close>; \<open>reading\<close>: the loop is suspended at \<open>await reader.read()\<close>), the titles
  of the toasts shown, the errors logged by \<open>console.error\<close>, the errors thrown inside an
  \<open>async\<close> function that nothing catches (in \<open>sendNextChunk\<close> after its \<open>await\<close>, and in
  the snapshot listeners), and the offers whose answer was handed to
  \<open>respondToSignalingSession\<close>.

  \<open>dataChannel\<close> and \<open>peerConnection\<close> say whether the ref of that name is non-null; a
  non-null ref points to \<open>dc\<close> and \<open>pc\<close>, the one channel and the one connection of the
  session, which the handlers also reach through their closures after the ref is cleared.
\<close>

datatype js_error = TypeError | InvalidStateError | SyntaxError | OperationError

record app =
  connectionStatus :: conn_status
  transferMode :: transfer_mode
  progress :: jsnum
  fileName :: string
  fileSize :: nat
  receivedFile :: "bytes option"
  peerConnection :: bool
  dataChannel :: bool
  pc :: connection
  dc :: channel
  receivedChunks :: "bytes list"
  bytesReceived :: nat
  expectedSize :: nat
  reader :: "bytes list"
  offset :: nat
  sendSize :: nat
  reading :: bool
  toasts :: "string list"
  console :: "string list"
  rejections :: "js_error list"
  answeredOffers :: "string list"

definition toast :: "string \<Rightarrow> app \<Rightarrow> app" where
  "toast title s = s\<lparr>toasts := toasts s @ [title]\<rparr>"

text \<open>An error that leaves an \<open>async\<close> function: its promise is rejected, unhandled.\<close>

definition reject :: "js_error \<Rightarrow> app \<Rightarrow> app" where
  "reject e s = s\<lparr>rejections := rejections s @ [e]\<rparr>"

section \<open>Teardown\<close>

text \<open>
  \<open>RTCDataChannel.close()\<close> on a channel that is closing or closed does nothing;
  otherwise the channel starts closing. \<open>RTCPeerConnection.close()\<close> closes the
  connection, whose \<open>signalingState\<close> is \<open>closed\<close> from then on.
\<close>

definition close_channel :: "channel \<Rightarrow> channel" where
  "close_channel c =
     (if readyState c = RsClosing \<or> readyState c = RsClosed then c
      else c\<lparr>readyState := RsClosing\<rparr>)"

definition close_connection :: "connection \<Rightarrow> connection" where
  "close_connection c = c\<lparr>closed := True, signalingState := SignalingClosed\<rparr>"

text \<open>\<open>cleanup\<close> (FileJet.tsx, lines 79 to 92).\<close>

definition cleanup :: "app \<Rightarrow> app" where
  "cleanup s =
     (let s1 = (if dataChannel s then s\<lparr>dc := close_channel (dc s), dataChannel := False\<rparr>
                else s);
          s2 = (if peerConnection s1
                then s1\<lparr>pc := close_connection (pc s1), peerConnection := False\<rparr>
                else s1)
      in s2\<lparr>connectionStatus := Disconnected, transferMode := Idle,
             progress := Num 0, receivedFile := None\<rparr>)"

text \<open>
  \<open>pc.onconnectionstatechange\<close> as \<open>setupPeerConnection\<close> installs it (lines 103 to 111).
\<close>

definition onconnectionstatechange :: "pc_state \<Rightarrow> app \<Rightarrow> app" where
  "onconnectionstatechange cs s =
     (if cs = PcConnected then toast ''Connected'' (s\<lparr>connectionStatus := Connected\<rparr>)
      else if cs = PcDisconnected \<or> cs = PcFailed then toast ''Disconnected'' (cleanup s)
      else s)"

text \<open>
  On the initiating side \<open>handleConnect\<close> replaces that handler, once the offer is
  published, by one that only reacts to \<open>connected\<close> (lines 258 to 263).
\<close>

definition onconnectionstatechange_initiator :: "pc_state \<Rightarrow> app \<Rightarrow> app" where
  "onconnectionstatechange_initiator cs s =
     (if cs = PcConnected then s\<lparr>connectionStatus := Connected\<rparr> else s)"

section \<open>The receiving side of the data channel\<close>

text \<open>\<open>dc.onopen\<close> and \<open>dc.onclose\<close> (lines 122 to 128).\<close>

definition onopen :: "app \<Rightarrow> app" where
  "onopen s = s\<lparr>connectionStatus := Connected\<rparr>"

definition onclose :: "app \<Rightarrow> app" where
  "onclose s = cleanup s"

text \<open>
  \<open>dc.onmessage\<close> (lines 130 to 156). \<open>new Blob(receivedChunks)\<close> is the concatenation of
  the chunks. A text that makes the \<open>try\<close> block throw is logged to the console and changes
  nothing else; the binary branch has no check of any kind.
\<close>

fun onmessage :: "(rat \<Rightarrow> rat) \<Rightarrow> message \<Rightarrow> app \<Rightarrow> app" where
  "onmessage fl (Text (Metadata name sz)) s =
     s\<lparr>fileName := name, fileSize := sz, expectedSize := sz,
       transferMode := Receiving, receivedChunks := [], bytesReceived := 0,
       progress := Num 0\<rparr>"
| "onmessage fl (Text Eof) s =
     toast ''Received''
       (s\<lparr>receivedFile := Some (concat (receivedChunks s)), progress := Num 100\<rparr>)"
| "onmessage fl (Text OtherType) s = s"
| "onmessage fl (Text Unparseable) s = s\<lparr>console := console s @ [''Message error:'']\<rparr>"
| "onmessage fl (Binary data) s =
     (let n = bytesReceived s + length data
      in s\<lparr>receivedChunks := receivedChunks s @ [data], bytesReceived := n,
           progress := percent fl n (expectedSize s)\<rparr>)"

text \<open>Frames are delivered in order, one \<open>message\<close> event each.\<close>

definition receive :: "(rat \<Rightarrow> rat) \<Rightarrow> message list \<Rightarrow> app \<Rightarrow> app" where
  "receive fl ms s = foldl (\<lambda>s m. onmessage fl m s) s ms"

text \<open>\<open>downloadFile\<close> (lines 271 to 279): the blob offered for download, if there is one.\<close>

definition downloadFile :: "app \<Rightarrow> (string \<times> bytes) option" where
  "downloadFile s =
     (case receivedFile s of None \<Rightarrow> None | Some blob \<Rightarrow> Some (fileName s, blob))"

text \<open>The component as \<open>useState\<close> and \<open>useRef\<close> initialise it.\<close>

definition closed_channel :: channel where
  "closed_channel =
     \<lparr>readyState = RsClosed, bufferedAmount = 0, onbufferedamountlow = False, sent = []\<rparr>"

definition init :: app where
  "init =
     \<lparr>connectionStatus = Disconnected, transferMode = Idle, progress = Num 0,
      fileName = [], fileSize = 0, receivedFile = None,
      peerConnection = False, dataChannel = False,
      pc = \<lparr>closed = True, signalingState = SignalingClosed, remoteDescription = None,
            candidates = []\<rparr>,
      dc = closed_channel,
      receivedChunks = [], bytesReceived = 0, expectedSize = 0,
      reader = [], offset = 0, sendSize = 0, reading = False, toasts = [],
      console = [], rejections = [], answeredOffers = []\<rparr>"

section \<open>The sending side of the data channel\<close>

text \<open>
  A \<open>File\<close>: its name and the chunks its \<open>stream()\<close> delivers, in order. The content of
  the file is their concatenation and \<open>file.size\<close> its length. How the stream cuts the
  content into chunks is the browser's choice (the component does not use \<open>CHUNK_SIZE\<close>),
  so every list of chunks is a possible file.
\<close>

record jsfile =
  file_name :: string
  file_chunks :: "bytes list"

definition file_content :: "jsfile \<Rightarrow> bytes" where
  "file_content f = concat (file_chunks f)"

definition file_size :: "jsfile \<Rightarrow> nat" where
  "file_size f = length (file_content f)"

text \<open>\<open>dc.send(m)\<close> on an open channel.\<close>

definition send :: "message \<Rightarrow> app \<Rightarrow> app" where
  "send m s = s\<lparr>dc := (dc s)\<lparr>sent := sent (dc s) @ [m]\<rparr>\<rparr>"

text \<open>
  \<open>sendNextChunk\<close> (lines 184 to 209) is a \<open>while (true)\<close> loop with an \<open>await\<close> in its
  body, so it runs in pieces. \<open>sendNextChunk\<close> below is the piece from the top of the loop
  to the first point where control leaves it: the \<open>break\<close> when the channel is gone or
  not open, the \<open>return\<close> that installs the \<open>onbufferedamountlow\<close> handler when
  \<open>dc.bufferedAmount\<close> exceeds \<open>BUFFER_THRESHOLD\<close>, or the suspension at
  \<open>await reader.read()\<close>. \<open>BUFFER_THRESHOLD\<close> comes from \<open>@/lib/webrtc-config\<close>, which
  is not part of the sources, and is the parameter \<open>threshold\<close>.
\<close>

definition sendNextChunk :: "nat \<Rightarrow> app \<Rightarrow> app" where
  "sendNextChunk threshold s =
     (if \<not> dataChannel s \<or> readyState (dc s) \<noteq> RsOpen then s
      else if bufferedAmount (dc s) > threshold
      then s\<lparr>dc := (dc s)\<lparr>onbufferedamountlow := True\<rparr>\<rparr>
      else s\<lparr>reading := True\<rparr>)"

text \<open>
  The piece after \<open>await reader.read()\<close>, run when the read settles: at the end of the
  stream the eof frame (if the channel is still open) and the success toast; otherwise
  the chunk is sent, \<open>offset\<close> and the progress are updated and the loop is at its top
  again. Two statements can throw here, which rejects the promise of \<open>sendNextChunk\<close> and
  ends the loop with nothing else done: \<open>dataChannel.current.readyState\<close> when the ref
  is null (a \<open>TypeError\<close>), and \<open>dc.send\<close> on a channel that is not open (an
  \<open>InvalidStateError\<close>). When no read is pending there is nothing to settle.
\<close>

definition read_resolved :: "(rat \<Rightarrow> rat) \<Rightarrow> nat \<Rightarrow> app \<Rightarrow> app" where
  "read_resolved fl threshold s0 =
     (if \<not> reading s0 then s0
      else
        let s = s0\<lparr>reading := False\<rparr> in
        case reader s of
          [] \<Rightarrow>
            if \<not> dataChannel s then reject TypeError s
            else toast ''Success'' (if readyState (dc s) = RsOpen then send (Text Eof) s else s)
        | val # rest \<Rightarrow>
            if readyState (dc s) \<noteq> RsOpen then reject InvalidStateError (s\<lparr>reader := rest\<rparr>)
            else
              let off = offset s + length val
              in sendNextChunk threshold
                   ((send (Binary val) s)
                      \<lparr>reader := rest, offset := off,
                       progress := percent fl off (sendSize s)\<rparr>))"

text \<open>
  The handler installed at the backpressure \<open>return\<close> (lines 189 to 192): it removes
  itself and calls \<open>sendNextChunk\<close>. A \<open>bufferedamountlow\<close> event while no handler is
  installed does nothing.
\<close>

definition bufferedamountlow :: "nat \<Rightarrow> app \<Rightarrow> app" where
  "bufferedamountlow threshold s =
     (if onbufferedamountlow (dc s)
      then sendNextChunk threshold (s\<lparr>dc := (dc s)\<lparr>onbufferedamountlow := False\<rparr>\<rparr>)
      else s)"

text \<open>
  \<open>handleSendFile\<close> (lines 159 to 216), up to the first suspension of the loop it starts.
  The closure it creates is new: \<open>offset\<close> is \<open>0\<close>, the reader is at the start of the
  stream and no read is pending. With the channel checked to be open just before, the
  \<open>send\<close> of the metadata frame does not throw, so the \<open>catch\<close> is not entered.
\<close>

definition handleSendFile :: "nat \<Rightarrow> jsfile option \<Rightarrow> app \<Rightarrow> app" where
  "handleSendFile threshold file s =
     (case file of
        None \<Rightarrow> s
      | Some f \<Rightarrow>
          if \<not> dataChannel s \<or> readyState (dc s) \<noteq> RsOpen
          then toast ''Connection Required'' s
          else
            sendNextChunk threshold
              ((send (Text (Metadata (file_name f) (file_size f)))
                  (s\<lparr>fileName := file_name f, fileSize := file_size f,
                     transferMode := Sending, progress := Num 0\<rparr>))
                 \<lparr>reader := file_chunks f, offset := 0, sendSize := file_size f,
                  reading := False\<rparr>))"

section \<open>The event loop\<close>

text \<open>
  Everything that happens to the component after a transfer has started is one of these
  events, handled one at a time: the pending read settles; the channel fires
  \<open>bufferedamountlow\<close>, \<open>message\<close>, \<open>open\<close> or \<open>close\<close>; the connection changes its state
  (under either of its two handlers); or the browser changes the channel's
  \<open>bufferedAmount\<close> or \<open>readyState\<close>, which the component only reads. No order and no
  fairness is assumed of them.
\<close>

datatype event =
    ReadResolved
  | BufferedAmountLow
  | Buffered nat
  | ReadyState ready_state
  | Message message
  | ChannelOpen
  | ChannelClose
  | ConnectionState pc_state
  | InitiatorConnectionState pc_state

fun step :: "(rat \<Rightarrow> rat) \<Rightarrow> nat \<Rightarrow> event \<Rightarrow> app \<Rightarrow> app" where
  "step fl threshold ReadResolved s = read_resolved fl threshold s"
| "step fl threshold BufferedAmountLow s = bufferedamountlow threshold s"
| "step fl threshold (Buffered n) s = s\<lparr>dc := (dc s)\<lparr>bufferedAmount := n\<rparr>\<rparr>"
| "step fl threshold (ReadyState r) s = s\<lparr>dc := (dc s)\<lparr>readyState := r\<rparr>\<rparr>"
| "step fl threshold (Message m) s = onmessage fl m s"
| "step fl threshold ChannelOpen s = onopen s"
| "step fl threshold ChannelClose s = onclose s"
| "step fl threshold (ConnectionState cs) s = onconnectionstatechange cs s"
| "step fl threshold (InitiatorConnectionState cs) s = onconnectionstatechange_initiator cs s"

definition run :: "(rat \<Rightarrow> rat) \<Rightarrow> nat \<Rightarrow> event list \<Rightarrow> app \<Rightarrow> app" where
  "run fl threshold evs s = foldl (\<lambda>s e. step fl threshold e s) s evs"

section \<open>Signaling\<close>

text \<open>
  The strings of a signaling document are represented by what the listeners make of
  them. A description (\<open>offer\<close>, \<open>answer\<close>) is a text that \<open>JSON.parse\<close> accepts and
  whose description \<open>setRemoteDescription\<close> accepts in a fitting signaling state, a text
  for which \<open>JSON.parse\<close> throws, or a text that parses to something
  \<open>setRemoteDescription\<close> rejects. A candidate string is one for which
  \<open>new RTCIceCandidate(JSON.parse(candStr))\<close> yields a candidate, as every string written
  by \<open>addIceCandidate\<close> of signaling.ts does, or one for which it throws.
\<close>

datatype sdp_text = Acceptable string | NotJson string | NotSdp string

datatype cand_text = CandidateJson string | NotCandidate string

text \<open>
  The signaling document of a session, as \<open>createSignalingSession\<close> writes it and the
  snapshot listeners read it. The listeners test \<open>offer\<close> and \<open>answer\<close> for truthiness: a
  field that is absent or the empty string is \<open>None\<close>. An array is truthy also when it is
  empty, so a candidates field is \<open>None\<close> only when it is absent. The listeners do not
  read \<open>createdAt\<close>.
\<close>

record signaling_doc =
  offer :: "sdp_text option"
  answer :: "sdp_text option"
  senderCandidates :: "cand_text list option"
  receiverCandidates :: "cand_text list option"












subsection \<open>The store\<close>

text \<open>
  Firestore's \<open>doc\<close> and \<open>deleteDoc\<close> belong to the \<open>firebase/firestore\<close> library. \<open>doc\<close>
  takes a \<open>Firestore\<close>, a \<open>CollectionReference\<close> or a \<open>DocumentReference\<close> as its first
  argument and path segments after it; given anything else as first argument (here: a
  string) it throws a \<open>FirestoreError\<close> with code \<open>invalid-argument\<close>. \<open>deleteDoc\<close> removes
  the document a reference names and succeeds whether or not the document exists. The
  store maps the path of a document to the document.
\<close>

datatype firestore_error = InvalidArgument

datatype doc_parent = Db | JsString string

type_synonym doc_ref = "string list"

type_synonym store = "doc_ref \<Rightarrow> signaling_doc option"

definition doc :: "doc_parent \<Rightarrow> string list \<Rightarrow> firestore_error + doc_ref" where
  "doc parent segments =
     (case parent of Db \<Rightarrow> Inr segments | JsString p \<Rightarrow> Inl InvalidArgument)"

text \<open>\<open>DocumentReference.path\<close>: the segments joined by slashes.\<close>

fun path :: "doc_ref \<Rightarrow> string" where
  "path [] = []"
| "path [seg] = seg"
| "path (seg # segs) = seg @ ''/'' @ path segs"

definition deleteDoc :: "store \<Rightarrow> doc_ref \<Rightarrow> store" where
  "deleteDoc st ref = st(ref := None)"

text \<open>
  \<open>cleanupSignalingSession\<close> (signaling.ts, lines 54 to 57): line 55 calls \<open>doc\<close> with the
  path string of the reference as its only argument, line 56 deletes the document. A
  throw is the value \<open>Inl\<close>; \<open>Inr\<close> carries the store after the call.
\<close>

definition cleanupSignalingSession :: "store \<Rightarrow> string \<Rightarrow> firestore_error + store" where
  "cleanupSignalingSession st sessionId =
     (case doc Db [''signaling'', sessionId] of
        Inl e \<Rightarrow> Inl e
      | Inr inner \<Rightarrow>
          (case doc (JsString (path inner)) [] of
             Inl e \<Rightarrow> Inl e
           | Inr docRef \<Rightarrow>
               (case doc Db [''signaling'', sessionId] of
                  Inl e \<Rightarrow> Inl e
                | Inr target \<Rightarrow> Inr (deleteDoc st target))))"

subsection \<open>Session ids\<close>

text \<open>
  A double is \<open>m * 2^e\<close> with a significand below \<open>2^53\<close> and an exponent in the range of
  the format. JavaScript rounds the exact result of \<open>*\<close>, \<open>+\<close> and \<open>/\<close> to a nearest
  double; of such a rounding \<open>fl\<close> the proofs use only that it is monotone and that no
  double is nearer to \<open>x\<close> than \<open>fl x\<close>, for \<open>x\<close> within the range of the format.
\<close>

definition is_double :: "rat \<Rightarrow> bool" where
  "is_double x \<longleftrightarrow>
     (\<exists>m e. \<bar>m\<bar> < 2 ^ 53 \<and> - 1074 \<le> e \<and> e \<le> 971 \<and> x = rat_of_int m * 2 powi e)"

definition rounds_to_nearest :: "(rat \<Rightarrow> rat) \<Rightarrow> bool" where
  "rounds_to_nearest fl \<longleftrightarrow>
     (\<forall>x y. x \<le> y \<longrightarrow> fl x \<le> fl y) \<and>
     (\<forall>x d. \<bar>x\<bar> \<le> 2 ^ 1023 \<and> is_double d \<longrightarrow> \<bar>fl x - x\<bar> \<le> \<bar>d - x\<bar>)"

text \<open>\<open>Number.prototype.toString\<close> on an integer: its decimal digits, with a sign.\<close>

definition digit_char :: "nat \<Rightarrow> char" where
  "digit_char d = ''0123456789'' ! (d mod 10)"

function decimal :: "nat \<Rightarrow> string" where
  "decimal n = (if n < 10 then [digit_char n] else decimal (n div 10) @ [digit_char (n mod 10)])"
  by pat_completeness auto
termination
  by (relation "measure id") auto

declare decimal.simps [simp del]

definition toString :: "int \<Rightarrow> string" where
  "toString i = (if i < 0 then ''-'' @ decimal (nat (- i)) else decimal (nat i))"

text \<open>
  \<open>generateId\<close> (signaling.ts, lines 13 to 15), with the value \<open>Math.random()\<close> returns as
  its argument: \<open>Math.floor(100000 + random * 900000).toString()\<close>.
\<close>

definition generateId :: "(rat \<Rightarrow> rat) \<Rightarrow> rat \<Rightarrow> string" where
  "generateId fl random = toString \<lfloor>fl (100000 + fl (random * 900000))\<rfloor>"

section \<open>Notions used by the statements\<close>

text \<open>
  The frames of one complete transfer of a file, in the order the sender hands them to
  the channel.
\<close>

definition transfer_frames :: "jsfile \<Rightarrow> message list" where
  "transfer_frames f =
     Text (Metadata (file_name f) (file_size f)) # map Binary (file_chunks f) @ [Text Eof]"

text \<open>
  What holds of the sending side in every state a transfer reaches, for a file \<open>f\<close> and
  the frames \<open>w\<close> the channel had been given before: the loop is never suspended at a
  read and on backpressure at once; the channel has been given the metadata frame and the
  first \<open>j\<close> chunks, and while the loop is suspended the reader stands at chunk \<open>j\<close>; or
  the loop has ended after the eof frame.
\<close>

definition sending_inv :: "message list \<Rightarrow> jsfile \<Rightarrow> app \<Rightarrow> bool" where
  "sending_inv w f s \<longleftrightarrow>
     \<not> (reading s \<and> onbufferedamountlow (dc s)) \<and>
     ((\<exists>j \<le> length (file_chunks f).
         sent (dc s) =
           w @ Text (Metadata (file_name f) (file_size f)) # map Binary (take j (file_chunks f)) \<and>
         (reading s \<or> onbufferedamountlow (dc s) \<longrightarrow> reader s = drop j (file_chunks f))) \<or>
      (\<not> reading s \<and> \<not> onbufferedamountlow (dc s) \<and> sent (dc s) = w @ transfer_frames f))"





text \<open>The number a string of decimal digits denotes.\<close>

definition digit_value :: "char \<Rightarrow> nat" where
  "digit_value c = of_char c - 48"

definition decimal_value :: "string \<Rightarrow> nat" where
  "decimal_value str = foldl (\<lambda>a c. 10 * a + digit_value c) 0 str"

text \<open>
  States and files for the examples: a component whose channel has just opened, a
  three-byte file that its stream delivers in two chunks, a file of size zero, and a
  signaling document before and after the responder has answered, with one candidate of
  each side.
\<close>

definition open_session :: app where
  "open_session =
     init\<lparr>connectionStatus := Connected, peerConnection := True, dataChannel := True,
          pc := \<lparr>closed = False, signalingState = Stable,
                 remoteDescription = Some ''v=0 remote'', candidates = []\<rparr>,
          dc := closed_channel\<lparr>readyState := RsOpen\<rparr>\<rparr>"

definition sample_file :: jsfile where
  "sample_file = \<lparr>file_name = ''a.bin'', file_chunks = [[1, 2], [3]]\<rparr>"

definition empty_file :: jsfile where
  "empty_file = \<lparr>file_name = ''empty.txt'', file_chunks = []\<rparr>"




section \<open>Receiving: the frames of a transfer\<close>

lemma receive_Nil: "receive fl [] s = s"
  by (simp add: receive_def)

lemma receive_Cons: "receive fl (m # ms) s = receive fl ms (onmessage fl m s)"
  by (simp add: receive_def)

lemma receive_append: "receive fl (ms @ ms') s = receive fl ms' (receive fl ms s)"
  by (simp add: receive_def)

lemma receive_binaries:
  "receive fl (map Binary ds) s =
     s\<lparr>receivedChunks := receivedChunks s @ ds,
       bytesReceived := bytesReceived s + length (concat ds),
       progress := (if ds = [] then progress s
                    else percent fl (bytesReceived s + length (concat ds)) (expectedSize s))\<rparr>"
proof (induction ds arbitrary: s)
  case Nil
  show ?case by (simp add: receive_Nil)
next
  case (Cons d ds)
  show ?case
    by (simp add: receive_Cons Cons.IH Let_def add.assoc)
qed

lemma receive_transfer_frames:
  "receive fl (transfer_frames f) r =
     r\<lparr>fileName := file_name f, fileSize := file_size f, expectedSize := file_size f,
       transferMode := Receiving, receivedChunks := file_chunks f,
       bytesReceived := file_size f, receivedFile := Some (file_content f),
       progress := Num 100, toasts := toasts r @ [''Received'']\<rparr>"
  by (simp add: transfer_frames_def receive_Cons receive_append receive_binaries receive_Nil
      toast_def file_size_def file_content_def)

section \<open>Sending: the event loop\<close>

lemma run_Nil: "run fl th [] s = s"
  by (simp add: run_def)

lemma run_Cons: "run fl th (e # es) s = run fl th es (step fl th e s)"
  by (simp add: run_def)

lemma run_append: "run fl th (es @ es') s = run fl th es' (run fl th es s)"
  by (simp add: run_def)

text \<open>
  While no read is pending, only the \<open>bufferedamountlow\<close> handler can make the loop go
  on: every other event leaves the frames given to the channel as they are, and leaves
  no read pending.
\<close>

lemma step_quiet:
  "\<not> reading s \<Longrightarrow> ev \<noteq> BufferedAmountLow \<Longrightarrow>
     sent (dc (step fl th ev s)) = sent (dc s) \<and> \<not> reading (step fl th ev s)"
proof (cases ev)
  case (Message m)
  assume "\<not> reading s"
  then show ?thesis using Message
    by (cases "(fl, m, s)" rule: onmessage.cases) (auto simp: toast_def Let_def)
qed (auto simp: read_resolved_def onopen_def onclose_def cleanup_def Let_def
       onconnectionstatechange_def onconnectionstatechange_initiator_def toast_def
       close_channel_def reject_def)

lemma run_quiet:
  "\<not> reading s \<Longrightarrow> BufferedAmountLow \<notin> set evs \<Longrightarrow>
     sent (dc (run fl th evs s)) = sent (dc s) \<and> \<not> reading (run fl th evs s)"
proof (induction evs arbitrary: s)
  case Nil
  then show ?case by (simp add: run_def)
next
  case (Cons e es)
  from Cons.prems have q: "sent (dc (step fl th e s)) = sent (dc s)" "\<not> reading (step fl th e s)"
    using step_quiet[of s e fl th] by auto
  have "run fl th (e # es) s = run fl th es (step fl th e s)" by (simp add: run_def)
  with Cons.IH[OF q(2)] Cons.prems q show ?case by simp
qed

text \<open>The invariant holds at the top of the loop and is kept by every handler.\<close>

lemma inv_sendNextChunk:
  assumes "\<not> reading s" "\<not> onbufferedamountlow (dc s)" "j \<le> length (file_chunks f)"
    and "sent (dc s) =
           w @ Text (Metadata (file_name f) (file_size f)) # map Binary (take j (file_chunks f))"
    and "reader s = drop j (file_chunks f)"
  shows "sending_inv w f (sendNextChunk th s)"
  using assms unfolding sending_inv_def sendNextChunk_def by auto

lemma inv_same:
  assumes "sending_inv w f s" "sent (dc s') = sent (dc s)" "reading s' = reading s"
    "onbufferedamountlow (dc s') = onbufferedamountlow (dc s)" "reader s' = reader s"
  shows "sending_inv w f s'"
  using assms unfolding sending_inv_def by simp

lemma inv_onmessage: "sending_inv w f s \<Longrightarrow> sending_inv w f (onmessage fl m s)"
  by (rule inv_same[of w f s]; cases "(fl, m, s)" rule: onmessage.cases)
     (simp_all add: toast_def Let_def)

lemma inv_cleanup: "sending_inv w f s \<Longrightarrow> sending_inv w f (cleanup s)"
  by (rule inv_same[of w f s]) (simp_all add: cleanup_def Let_def close_channel_def)

lemma inv_bufferedamountlow:
  assumes "sending_inv w f s"
  shows "sending_inv w f (bufferedamountlow th s)"
proof (cases "onbufferedamountlow (dc s)")
  case False
  then show ?thesis using assms by (simp add: bufferedamountlow_def)
next
  case True
  with assms obtain j where j: "j \<le> length (file_chunks f)"
    "sent (dc s) =
       w @ Text (Metadata (file_name f) (file_size f)) # map Binary (take j (file_chunks f))"
    "reader s = drop j (file_chunks f)" and nr: "\<not> reading s"
    unfolding sending_inv_def by auto
  let ?s = "s\<lparr>dc := (dc s)\<lparr>onbufferedamountlow := False\<rparr>\<rparr>"
  have "sending_inv w f (sendNextChunk th ?s)"
    by (rule inv_sendNextChunk[where j = j]) (use j nr in simp_all)
  with True show ?thesis by (simp add: bufferedamountlow_def)
qed

lemma inv_read_resolved:
  assumes "sending_inv w f s"
  shows "sending_inv w f (read_resolved fl th s)"
proof (cases "reading s")
  case False
  then show ?thesis using assms by (simp add: read_resolved_def)
next
  case True
  let ?cs = "file_chunks f"
  let ?meta = "Text (Metadata (file_name f) (file_size f))"
  from True assms obtain j where j: "j \<le> length ?cs"
    "sent (dc s) = w @ ?meta # map Binary (take j ?cs)"
    "reader s = drop j ?cs" and nh: "\<not> onbufferedamountlow (dc s)"
    unfolding sending_inv_def by auto
  show ?thesis
  proof (cases "reader s")
    case Nil
    with j have "take j ?cs = ?cs" by simp
    with j Nil True nh show ?thesis
      unfolding sending_inv_def read_resolved_def transfer_frames_def
      by (auto simp: Let_def toast_def send_def reject_def)
  next
    case (Cons v rest)
    with j have lt: "j < length ?cs" by (cases "j < length ?cs") auto
    from Cons j lt have v: "v = ?cs ! j" and rest: "rest = drop (Suc j) ?cs"
      by (simp_all add: Cons_nth_drop_Suc[symmetric])
    have tk: "take (Suc j) ?cs = take j ?cs @ [v]"
      using lt v by (simp add: take_Suc_conv_app_nth)
    show ?thesis
    proof (cases "readyState (dc s) = RsOpen")
      case False
      with True Cons j nh show ?thesis
        unfolding sending_inv_def read_resolved_def
        by (auto simp: Let_def reject_def)
    next
      case isopen: True
      let ?s = "(send (Binary v) (s\<lparr>reading := False\<rparr>))
                  \<lparr>reader := rest, offset := offset s + length v,
                   progress := percent fl (offset s + length v) (sendSize s)\<rparr>"
      have "sending_inv w f (sendNextChunk th ?s)"
        by (rule inv_sendNextChunk[where j = "Suc j"])
           (use lt j nh rest tk in \<open>simp_all add: send_def\<close>)
      with True Cons isopen show ?thesis
        by (simp add: read_resolved_def Let_def)
    qed
  qed
qed

lemma inv_step: "sending_inv w f s \<Longrightarrow> sending_inv w f (step fl th ev s)"
proof (cases ev)
  case ReadResolved
  assume "sending_inv w f s"
  then show ?thesis using ReadResolved by (simp add: inv_read_resolved)
next
  case BufferedAmountLow
  assume "sending_inv w f s"
  then show ?thesis using BufferedAmountLow by (simp add: inv_bufferedamountlow)
next
  case (Buffered n)
  assume "sending_inv w f s"
  then show ?thesis using Buffered by (simp add: sending_inv_def)
next
  case (ReadyState r)
  assume "sending_inv w f s"
  then show ?thesis using ReadyState by (simp add: sending_inv_def)
next
  case (Message m)
  assume "sending_inv w f s"
  then show ?thesis using Message by (simp add: inv_onmessage)
next
  case ChannelOpen
  assume "sending_inv w f s"
  then show ?thesis using ChannelOpen by (simp add: sending_inv_def onopen_def)
next
  case ChannelClose
  assume "sending_inv w f s"
  then show ?thesis using ChannelClose by (simp add: inv_cleanup onclose_def)
next
  case (ConnectionState cs)
  assume "sending_inv w f s"
  then have "sending_inv w f (toast ''Disconnected'' (cleanup s))"
    "sending_inv w f (toast ''Connected'' (s\<lparr>connectionStatus := Connected\<rparr>))"
    using inv_cleanup[of w f s] by (simp_all add: sending_inv_def toast_def)
  with \<open>sending_inv w f s\<close> show ?thesis using ConnectionState
    by (simp add: onconnectionstatechange_def)
next
  case (InitiatorConnectionState cs)
  assume "sending_inv w f s"
  then show ?thesis using InitiatorConnectionState
    by (simp add: sending_inv_def onconnectionstatechange_initiator_def)
qed

lemma inv_run: "sending_inv w f s \<Longrightarrow> sending_inv w f (run fl th evs s)"
  by (induction evs arbitrary: s) (simp_all add: run_Nil run_Cons inv_step)

lemma inv_handleSendFile:
  assumes "dataChannel s" "readyState (dc s) = RsOpen" "\<not> onbufferedamountlow (dc s)"
  shows "sending_inv (sent (dc s)) f (handleSendFile th (Some f) s)"
proof -
  let ?s = "(send (Text (Metadata (file_name f) (file_size f)))
              (s\<lparr>fileName := file_name f, fileSize := file_size f,
                 transferMode := Sending, progress := Num 0\<rparr>))
             \<lparr>reader := file_chunks f, offset := 0, sendSize := file_size f,
              reading := False\<rparr>"
  have "sending_inv (sent (dc s)) f (sendNextChunk th ?s)"
    by (rule inv_sendNextChunk[where j = 0]) (use assms in \<open>simp_all add: send_def\<close>)
  with assms show ?thesis by (simp add: handleSendFile_def)
qed

text \<open>
  With the channel open and the buffered amount within the threshold, one settled read
  for each chunk and one for the end of the stream complete the transfer.
\<close>

lemma drain:
  assumes "reading s" "dataChannel s" "readyState (dc s) = RsOpen" "bufferedAmount (dc s) \<le> th"
  shows "run fl th (replicate (Suc (length (reader s))) ReadResolved) s =
           s\<lparr>reading := False, reader := [],
             offset := offset s + length (concat (reader s)),
             progress := (if reader s = [] then progress s
                          else percent fl (offset s + length (concat (reader s))) (sendSize s)),
             dc := (dc s)\<lparr>sent := sent (dc s) @ map Binary (reader s) @ [Text Eof]\<rparr>,
             toasts := toasts s @ [''Success'']\<rparr>"
  using assms
proof (induction "reader s" arbitrary: s)
  case Nil
  then show ?case
    by (simp add: run_Cons run_Nil read_resolved_def Let_def toast_def send_def)
next
  case (Cons v rest)
  let ?s = "step fl th ReadResolved s"
  have s': "?s = s\<lparr>dc := (dc s)\<lparr>sent := sent (dc s) @ [Binary v]\<rparr>, reader := rest,
                    offset := offset s + length v,
                    progress := percent fl (offset s + length v) (sendSize s)\<rparr>"
    using Cons.prems Cons.hyps(2)[symmetric]
    by (simp add: read_resolved_def Let_def send_def sendNextChunk_def)
  have "run fl th (replicate (Suc (length (reader ?s))) ReadResolved) ?s = 
          ?s\<lparr>reading := False, reader := [],
             offset := offset ?s + length (concat (reader ?s)),
             progress := (if reader ?s = [] then progress ?s
                          else percent fl (offset ?s + length (concat (reader ?s))) (sendSize ?s)),
             dc := (dc ?s)\<lparr>sent := sent (dc ?s) @ map Binary (reader ?s) @ [Text Eof]\<rparr>,
             toasts := toasts ?s @ [''Success'']\<rparr>"
    by (rule Cons.hyps(1)) (use Cons.prems s' in simp_all)
  moreover have "run fl th (replicate (Suc (length (reader s))) ReadResolved) s
     = run fl th (replicate (Suc (length (reader ?s))) ReadResolved) ?s"
    using Cons.hyps(2)[symmetric] s' by (simp add: run_Cons)
  ultimately show ?case
    using Cons.hyps(2)[symmetric] s' by (simp add: add.assoc)
qed

lemma handleSendFile_open:
  assumes "dataChannel s" "readyState (dc s) = RsOpen" "bufferedAmount (dc s) \<le> th"
  shows "handleSendFile th (Some f) s =
           s\<lparr>fileName := file_name f, fileSize := file_size f, transferMode := Sending,
             progress := Num 0,
             dc := (dc s)\<lparr>sent := sent (dc s) @ [Text (Metadata (file_name f) (file_size f))]\<rparr>,
             reader := file_chunks f, offset := 0, sendSize := file_size f, reading := True\<rparr>"
  using assms by (simp add: handleSendFile_def sendNextChunk_def send_def)

lemma transfer_completes:
  assumes "dataChannel s" "readyState (dc s) = RsOpen" "bufferedAmount (dc s) \<le> th"
  shows "run fl th (replicate (Suc (length (file_chunks f))) ReadResolved)
           (handleSendFile th (Some f) s) =
         s\<lparr>fileName := file_name f, fileSize := file_size f, transferMode := Sending,
           progress := (if file_chunks f = [] then Num 0
                        else percent fl (file_size f) (file_size f)),
           dc := (dc s)\<lparr>sent := sent (dc s) @ transfer_frames f\<rparr>,
           reader := [], offset := file_size f, sendSize := file_size f, reading := False,
           toasts := toasts s @ [''Success'']\<rparr>"
proof -
  let ?s = "handleSendFile th (Some f) s"
  have h: "?s = s\<lparr>fileName := file_name f, fileSize := file_size f, transferMode := Sending,
             progress := Num 0,
             dc := (dc s)\<lparr>sent := sent (dc s) @ [Text (Metadata (file_name f) (file_size f))]\<rparr>,
             reader := file_chunks f, offset := 0, sendSize := file_size f, reading := True\<rparr>"
    by (rule handleSendFile_open[OF assms])
  have r: "reader ?s = file_chunks f" by (simp add: h)
  have "run fl th (replicate (Suc (length (reader ?s))) ReadResolved) ?s =
           ?s\<lparr>reading := False, reader := [],
             offset := offset ?s + length (concat (reader ?s)),
             progress := (if reader ?s = [] then progress ?s
                          else percent fl (offset ?s + length (concat (reader ?s))) (sendSize ?s)),
             dc := (dc ?s)\<lparr>sent := sent (dc ?s) @ map Binary (reader ?s) @ [Text Eof]\<rparr>,
             toasts := toasts ?s @ [''Success'']\<rparr>"
    by (rule drain) (use assms h in simp_all)
  then show ?thesis
    unfolding r by (simp add: h transfer_frames_def file_size_def file_content_def)
qed

lemma eof_not_in_prefix:
  "Text Eof \<notin> set (Text (Metadata n z) # map Binary cs)"
  by auto

section \<open>Signaling: candidates and the store\<close>
















lemma deleteDoc_idempotent:
  "deleteDoc (deleteDoc st r) r = deleteDoc st r \<and> deleteDoc st r r = None"
  by (simp add: deleteDoc_def)

section \<open>Rounding\<close>

lemma is_doubleI:
  "\<bar>m\<bar> < 2 ^ 53 \<Longrightarrow> - 1074 \<le> e \<Longrightarrow> e \<le> 971 \<Longrightarrow> x = rat_of_int m * 2 powi e \<Longrightarrow> is_double x"
  unfolding is_double_def by blast

lemma is_double_int: "\<bar>m\<bar> < 2 ^ 53 \<Longrightarrow> is_double (rat_of_int m)"
  by (rule is_doubleI[of m 0]) simp_all

lemma is_double_below_900000: "is_double (900000 - 1 / 2 ^ 33)"
  by (rule is_doubleI[of "900000 * 2 ^ 33 - 1" "- 33"]) (simp_all add: power_int_minus field_simps)

lemma is_double_below_1000000: "is_double (1000000 - 1 / 2 ^ 33)"
  by (rule is_doubleI[of "1000000 * 2 ^ 33 - 1" "- 33"]) (simp_all add: power_int_minus field_simps)

lemma fl_double:
  assumes "rounds_to_nearest fl" "is_double d" "\<bar>d\<bar> \<le> 2 ^ 1023"
  shows "fl d = d"
proof -
  from assms have "\<bar>fl d - d\<bar> \<le> \<bar>d - d\<bar>"
    unfolding rounds_to_nearest_def by blast
  then show ?thesis by simp
qed

lemma fl_mono: "rounds_to_nearest fl \<Longrightarrow> x \<le> y \<Longrightarrow> fl x \<le> fl y"
  unfolding rounds_to_nearest_def by blast

lemma fl_near:
  "rounds_to_nearest fl \<Longrightarrow> \<bar>x\<bar> \<le> 2 ^ 1023 \<Longrightarrow> is_double d \<Longrightarrow> \<bar>fl x - x\<bar> \<le> \<bar>d - x\<bar>"
  unfolding rounds_to_nearest_def by blast

lemma fl_int: "rounds_to_nearest fl \<Longrightarrow> \<bar>m\<bar> < 2 ^ 53 \<Longrightarrow> fl (rat_of_int m) = rat_of_int m"
proof (rule fl_double)
  assume m: "\<bar>m\<bar> < 2 ^ 53"
  then show "is_double (rat_of_int m)" by (rule is_double_int)
  have "\<bar>rat_of_int m\<bar> = rat_of_int \<bar>m\<bar>" by simp
  also have "\<dots> \<le> rat_of_int (2 ^ 53)" using m by (simp only: of_int_le_iff)
  also have "\<dots> \<le> 2 ^ 1023" by simp
  finally show "\<bar>rat_of_int m\<bar> \<le> 2 ^ 1023" .
qed

text \<open>A double below \<open>1\<close> is at most the largest double below \<open>1\<close>.\<close>

lemma double_below_one:
  assumes "is_double r" "r < 1"
  shows "r \<le> 1 - 1 / 2 ^ 53"
proof -
  from assms obtain m e where m: "\<bar>m\<bar> < 2 ^ 53" and r: "r = rat_of_int m * 2 powi e"
    unfolding is_double_def by blast
  show ?thesis
  proof (cases "0 \<le> e")
    case True
    then have "r = rat_of_int (m * 2 ^ nat e)"
      by (simp add: r power_int_def)
    with assms(2) have "m * 2 ^ nat e < 1"
      by (metis of_int_1 of_int_less_iff)
    then have "m * 2 ^ nat e \<le> 0" by simp
    then have "rat_of_int (m * 2 ^ nat e) \<le> rat_of_int 0" by (simp only: of_int_le_iff)
    then have "rat_of_int (m * 2 ^ nat e) \<le> 0" by (simp only: of_int_0)
    with \<open>r = rat_of_int (m * 2 ^ nat e)\<close> show ?thesis by simp
  next
    case False
    define k where "k = nat (- e)"
    from False have rk: "r = rat_of_int m / 2 ^ k"
      by (simp add: r power_int_def k_def field_simps)
    show ?thesis
    proof (cases "k \<le> 53")
      case True
      then have p: "(2::rat) ^ 53 = 2 ^ k * 2 ^ (53 - k)"
        by (simp flip: power_add)
      have "r * 2 ^ 53 = rat_of_int m / 2 ^ k * (2 ^ k * 2 ^ (53 - k))"
        by (simp only: rk p)
      also have "\<dots> = rat_of_int (m * 2 ^ (53 - k))"
        by simp
      finally have "r * 2 ^ 53 = rat_of_int (m * 2 ^ (53 - k))" .
      moreover from assms(2) have "r * 2 ^ 53 < rat_of_int (2 ^ 53)" by simp
      ultimately have "m * 2 ^ (53 - k) < 2 ^ 53"
        by (metis of_int_less_iff)
      then have "m * 2 ^ (53 - k) \<le> 2 ^ 53 - 1" by simp
      then have "rat_of_int (m * 2 ^ (53 - k)) \<le> rat_of_int (2 ^ 53 - 1)"
        by (simp only: of_int_le_iff)
      with \<open>r * 2 ^ 53 = rat_of_int (m * 2 ^ (53 - k))\<close> have "r * 2 ^ 53 \<le> 2 ^ 53 - 1"
        by simp
      then show ?thesis by (simp add: field_simps)
    next
      case False
      then have "(2::rat) ^ 53 \<le> 2 ^ k" by (intro power_increasing) simp_all
      show ?thesis
      proof (cases "0 \<le> m")
        case True
        from m have "m \<le> 2 ^ 53 - 1" by simp
        then have "rat_of_int m \<le> rat_of_int (2 ^ 53 - 1)" by (simp only: of_int_le_iff)
        then have "rat_of_int m \<le> 2 ^ 53 - 1" by simp
        have "rat_of_int m / 2 ^ k \<le> rat_of_int m / 2 ^ 53"
          by (rule divide_left_mono) (use True \<open>(2::rat) ^ 53 \<le> 2 ^ k\<close> in simp_all)
        then have "r \<le> rat_of_int m / 2 ^ 53"
          by (simp only: rk)
        also have "\<dots> \<le> (2 ^ 53 - 1) / 2 ^ 53"
          using \<open>rat_of_int m \<le> 2 ^ 53 - 1\<close> by (simp add: divide_right_mono)
        also have "\<dots> = 1 - 1 / 2 ^ 53" by (simp add: field_simps)
        finally show ?thesis .
      next
        case False
        then have "rat_of_int m \<le> 0" by simp
        then have "r \<le> 0" unfolding rk by (simp add: divide_nonpos_pos)
        then show ?thesis by simp
      qed
    qed
  qed
qed

text \<open>
  The two roundings in \<open>generateId\<close> never reach \<open>1000000\<close>: the exact product is at most
  \<open>900000 - 900000 / 2^53\<close>, which lies nearer to the double \<open>900000 - 2^-33\<close> than to
  \<open>900000\<close>, and the sum is then nearer to \<open>1000000 - 2^-33\<close> than to \<open>1000000\<close>.
\<close>

lemma generateId_range:
  assumes fl: "rounds_to_nearest fl" and r0: "0 \<le> r" and r1: "r \<le> 1 - 1 / 2 ^ 53"
  shows "100000 \<le> fl (100000 + fl (r * 900000)) \<and> fl (100000 + fl (r * 900000)) < 1000000"
proof -
  define q :: rat where "q = 1 / 2 ^ 33"
  define p where "p = r * 900000"
  have q: "q = 1 / 8589934592" by (simp add: q_def)
  have p0: "0 \<le> p" and p1: "p \<le> 900000 - 900000 / 2 ^ 53"
    using r0 r1 by (simp_all add: p_def field_simps)
  have big: "(1000000::rat) \<le> 2 ^ 1023"
  proof -
    have "(1000000::rat) \<le> 2 ^ 20" by simp
    also have "\<dots> \<le> 2 ^ 1023" by (rule power_increasing) simp_all
    finally show ?thesis .
  qed
  have f0: "fl 0 = 0" using fl_int[OF fl, of 0] by simp
  have f1: "fl 100000 = 100000" using fl_int[OF fl, of 100000] by simp
  have fy: "fl (900000 - q) = 900000 - q"
    unfolding q_def by (rule fl_double[OF fl is_double_below_900000]) (use big in simp)
  have fz: "fl (1000000 - q) = 1000000 - q"
    unfolding q_def by (rule fl_double[OF fl is_double_below_1000000]) (use big in simp)
  have lo: "0 \<le> fl p" using fl_mono[OF fl p0] f0 by simp
  have hi: "fl p \<le> 900000 - (1800000 / 2 ^ 53 - q)"
  proof (cases "p \<le> 900000 - q")
    case True
    then have "fl p \<le> 900000 - q" using fl_mono[OF fl True] fy by simp
    then show ?thesis by (simp add: q)
  next
    case False
    have "\<bar>p\<bar> \<le> 2 ^ 1023" using p0 p1 big by simp
    from fl_near[OF fl this is_double_below_900000]
    have "\<bar>fl p - p\<bar> \<le> \<bar>900000 - q - p\<bar>" by (simp add: q_def)
    with False have "fl p \<le> 2 * p - (900000 - q)" by simp
    with p1 show ?thesis by simp
  qed
  define s where "s = 100000 + fl p"
  have s0: "100000 \<le> s" and s1: "s \<le> 1000000 - (1800000 / 2 ^ 53 - q)"
    using lo hi by (simp_all add: s_def)
  have "100000 \<le> fl s" using fl_mono[OF fl s0] f1 by simp
  moreover have "fl s < 1000000"
  proof (cases "s \<le> 1000000 - q")
    case True
    then have "fl s \<le> 1000000 - q" using fl_mono[OF fl True] fz by simp
    then show ?thesis by (simp add: q)
  next
    case False
    have "\<bar>s\<bar> \<le> 2 ^ 1023" using s0 s1 big by (simp add: q)
    from fl_near[OF fl this is_double_below_1000000]
    have "\<bar>fl s - s\<bar> \<le> \<bar>1000000 - q - s\<bar>" by (simp add: q_def)
    with False have "fl s \<le> 2 * s - (1000000 - q)" by simp
    with s1 show ?thesis by (simp add: q)
  qed
  ultimately show ?thesis by (simp add: s_def p_def)
qed

text \<open>The progress arithmetic under such a rounding.\<close>

lemma percent_full:
  assumes "rounds_to_nearest fl" "0 < a"
  shows "percent fl a a = Num 100"
proof -
  have "fl 1 = 1" "fl 100 = 100"
    using fl_int[OF assms(1), of 1] fl_int[OF assms(1), of 100] by simp_all
  with assms(2) show ?thesis by (simp add: percent_def divide_js_def)
qed

lemma percent_mono:
  assumes "rounds_to_nearest fl" "0 < b" "a \<le> a'"
  shows "le_js (percent fl a b) (percent fl a' b)"
proof -
  have "rat_of_nat a / rat_of_nat b \<le> rat_of_nat a' / rat_of_nat b"
    using assms(2,3) by (simp add: divide_right_mono)
  then have "fl (rat_of_nat a / rat_of_nat b) * 100 \<le> fl (rat_of_nat a' / rat_of_nat b) * 100"
    using fl_mono[OF assms(1)] by simp
  then show ?thesis
    using assms(2) fl_mono[OF assms(1)] by (simp add: percent_def divide_js_def)
qed

lemma percent_nonneg:
  assumes "rounds_to_nearest fl" "0 < b"
  shows "le_js (Num 0) (percent fl a b)"
proof -
  have z: "fl 0 = 0" using fl_int[OF assms(1), of 0] by simp
  have "0 \<le> rat_of_nat a / rat_of_nat b" by simp
  then have "0 \<le> fl (rat_of_nat a / rat_of_nat b)"
    using fl_mono[OF assms(1), of 0] z by simp
  then have "0 \<le> fl (rat_of_nat a / rat_of_nat b) * 100" by simp
  then have "0 \<le> fl (fl (rat_of_nat a / rat_of_nat b) * 100)"
    using fl_mono[OF assms(1), of 0] z by simp
  with assms(2) show ?thesis by (simp add: percent_def divide_js_def)
qed

section \<open>Decimal digits\<close>

lemma digit_char_cases:
  "d < 10 \<Longrightarrow> d = 0 \<or> d = 1 \<or> d = 2 \<or> d = 3 \<or> d = 4 \<or> d = 5 \<or> d = 6 \<or> d = 7 \<or> d = 8 \<or> d = (9::nat)"
  by arith

lemma digit_char_in: "digit_char d \<in> set ''0123456789''"
proof -
  have "d mod 10 < length ''0123456789''" by simp
  then show ?thesis unfolding digit_char_def by (rule nth_mem)
qed

lemma digit_value_digit_char: "d < 10 \<Longrightarrow> digit_value (digit_char d) = d"
  using digit_char_cases[of d] by (auto simp: digit_value_def digit_char_def)

lemma digit_char_zero: "d < 10 \<Longrightarrow> digit_char d = CHR ''0'' \<Longrightarrow> d = 0"
  using digit_char_cases[of d] by (auto simp: digit_char_def)

lemma decimal_not_Nil: "decimal n \<noteq> []"
  by (subst decimal.simps) simp

lemma decimal_digits: "set (decimal n) \<subseteq> set ''0123456789''"
proof (induction n rule: decimal.induct)
  case (1 n)
  show ?case
  proof (cases "n < 10")
    case True
    then show ?thesis using digit_char_in[of n] by (subst decimal.simps) simp
  next
    case False
    with 1 digit_char_in[of "n mod 10"] show ?thesis by (subst decimal.simps) simp
  qed
qed

lemma decimal_value_decimal: "decimal_value (decimal n) = n"
proof (induction n rule: decimal.induct)
  case (1 n)
  show ?case
  proof (cases "n < 10")
    case True
    then show ?thesis
      by (subst decimal.simps) (simp add: decimal_value_def digit_value_digit_char)
  next
    case False
    with 1 have "decimal_value (decimal (n div 10)) = n div 10" by simp
    with False show ?thesis
      by (subst decimal.simps) (simp add: decimal_value_def digit_value_digit_char)
  qed
qed

lemma decimal_hd: "0 < n \<Longrightarrow> hd (decimal n) \<noteq> CHR ''0''"
proof (induction n rule: decimal.induct)
  case (1 n)
  show ?case
  proof (cases "n < 10")
    case True
    with "1.prems" digit_char_zero[of n] show ?thesis by (subst decimal.simps) auto
  next
    case False
    then have "0 < n div 10" by simp
    with 1 False have "hd (decimal (n div 10)) \<noteq> CHR ''0''" by simp
    with False show ?thesis by (subst decimal.simps) (simp add: decimal_not_Nil)
  qed
qed

lemma decimal_length: "10 ^ k \<le> n \<Longrightarrow> n < 10 ^ Suc k \<Longrightarrow> length (decimal n) = Suc k"
proof (induction k arbitrary: n)
  case 0
  then show ?case by (subst decimal.simps) simp
next
  case (Suc k)
  have ge: "10 \<le> n"
  proof -
    obtain m where "(10::nat) ^ k = Suc m" by (cases "(10::nat) ^ k") auto
    with Suc.prems(1) show ?thesis by simp
  qed
  from Suc.prems have "10 ^ k \<le> n div 10" "n div 10 < 10 ^ Suc k"
    by (simp_all add: less_mult_imp_div_less le_div_geq div_le_mono2 )
  then have "length (decimal (n div 10)) = Suc k" by (rule Suc.IH)
  with ge show ?case by (subst decimal.simps) simp
qed

section \<open>The progress of a transfer\<close>

text \<open>
  For a file with content, under a rounding to nearest: the progress that both sides
  report never decreases from one chunk to the next, and lies between \<open>0\<close> and \<open>100\<close>.
\<close>


lemma percent_le_100:
  assumes "rounds_to_nearest fl" "0 < b" "a \<le> b"
  shows "le_js (percent fl a b) (Num 100)"
  using percent_mono[OF assms] percent_full[OF assms(1,2)] by simp

lemma length_concat_take_mono:
  "i \<le> j \<Longrightarrow> length (concat (take i xs)) \<le> length (concat (take j xs))"
proof -
  assume "i \<le> j"
  then have "take j xs = take i xs @ take (j - i) (drop i xs)"
    by (metis le_add_diff_inverse take_add)
  then show ?thesis by simp
qed

lemma length_concat_take_le: "length (concat (take i xs)) \<le> length (concat xs)"
  using length_concat_take_mono[of i "max i (length xs)" xs] by simp

text \<open>The progress a receiver reports after the metadata frame and the first \<open>k\<close> chunks.\<close>

lemma receiver_progress_after:
  "progress (receive fl (Text (Metadata name sz) # map Binary (take k cs)) r) =
     (if take k cs = [] then Num 0 else percent fl (length (concat (take k cs))) sz)"
  by (simp add: receive_Cons receive_binaries)

lemma receiver_progress_monotone:
  assumes "rounds_to_nearest fl" "0 < file_size f" "i \<le> j"
  shows "le_js
           (progress (receive fl (Text (Metadata (file_name f) (file_size f)) #
                        map Binary (take i (file_chunks f))) r))
           (progress (receive fl (Text (Metadata (file_name f) (file_size f)) #
                        map Binary (take j (file_chunks f))) r)) \<and>
         le_js
           (progress (receive fl (Text (Metadata (file_name f) (file_size f)) #
                        map Binary (take j (file_chunks f))) r))
           (progress (receive fl (transfer_frames f) r)) \<and>
         progress (receive fl (transfer_frames f) r) = Num 100"
proof -
  let ?cs = "file_chunks f"
  let ?n = "\<lambda>k. length (concat (take k ?cs))"
  have le: "?n i \<le> ?n j" using assms(3) by (rule length_concat_take_mono)
  have top: "?n j \<le> file_size f"
    unfolding file_size_def file_content_def by (rule length_concat_take_le)
  have "take j ?cs = [] \<Longrightarrow> take i ?cs = []"
    using assms(3) by (auto simp: take_eq_Nil)
  then have 1: "le_js (if take i ?cs = [] then Num 0 else percent fl (?n i) (file_size f))
                      (if take j ?cs = [] then Num 0 else percent fl (?n j) (file_size f))"
    using percent_mono[OF assms(1,2) le] percent_nonneg[OF assms(1,2), of "?n j"] by auto
  have 2: "le_js (if take j ?cs = [] then Num 0 else percent fl (?n j) (file_size f)) (Num 100)"
    using percent_le_100[OF assms(1,2) top] by simp
  show ?thesis
    using 1 2 by (simp only: receiver_progress_after receive_transfer_frames) simp
qed

text \<open>The sender after the first \<open>k\<close> reads of an undisturbed transfer have settled.\<close>

lemma partial_drain:
  assumes "reading s" "dataChannel s" "readyState (dc s) = RsOpen" "bufferedAmount (dc s) \<le> th"
    and "k \<le> length (reader s)"
  shows "run fl th (replicate k ReadResolved) s =
           s\<lparr>reader := drop k (reader s),
             offset := offset s + length (concat (take k (reader s))),
             progress := (if k = 0 then progress s
                          else percent fl (offset s + length (concat (take k (reader s)))) (sendSize s)),
             dc := (dc s)\<lparr>sent := sent (dc s) @ map Binary (take k (reader s))\<rparr>\<rparr>"
  using assms
proof (induction k arbitrary: s)
  case 0
  then show ?case by (simp add: run_Nil)
next
  case (Suc k)
  then obtain v rest where vr: "reader s = v # rest" by (cases "reader s") auto
  let ?s = "step fl th ReadResolved s"
  have s': "?s = s\<lparr>dc := (dc s)\<lparr>sent := sent (dc s) @ [Binary v]\<rparr>, reader := rest,
                    offset := offset s + length v,
                    progress := percent fl (offset s + length v) (sendSize s)\<rparr>"
    using Suc.prems vr by (simp add: read_resolved_def Let_def send_def sendNextChunk_def)
  have "run fl th (replicate k ReadResolved) ?s =
           ?s\<lparr>reader := drop k (reader ?s),
             offset := offset ?s + length (concat (take k (reader ?s))),
             progress := (if k = 0 then progress ?s
                          else percent fl (offset ?s + length (concat (take k (reader ?s)))) (sendSize ?s)),
             dc := (dc ?s)\<lparr>sent := sent (dc ?s) @ map Binary (take k (reader ?s))\<rparr>\<rparr>"
    by (rule Suc.IH) (use Suc.prems s' vr in simp_all)
  then show ?case
    using vr s' by (simp add: run_Cons add.assoc)
qed

lemma sender_progress_after:
  assumes "dataChannel s" "readyState (dc s) = RsOpen" "bufferedAmount (dc s) \<le> th"
    and "k \<le> length (file_chunks f)"
  shows "progress (run fl th (replicate k ReadResolved) (handleSendFile th (Some f) s)) =
           (if k = 0 then Num 0
            else percent fl (length (concat (take k (file_chunks f)))) (file_size f))"
proof -
  let ?s = "handleSendFile th (Some f) s"
  note h = handleSendFile_open[OF assms(1-3), of f]
  have "run fl th (replicate k ReadResolved) ?s =
           ?s\<lparr>reader := drop k (reader ?s),
             offset := offset ?s + length (concat (take k (reader ?s))),
             progress := (if k = 0 then progress ?s
                          else percent fl (offset ?s + length (concat (take k (reader ?s)))) (sendSize ?s)),
             dc := (dc ?s)\<lparr>sent := sent (dc ?s) @ map Binary (take k (reader ?s))\<rparr>\<rparr>"
    by (rule partial_drain) (use assms h in simp_all)
  then show ?thesis by (simp add: h)
qed

lemma sender_progress_monotone:
  assumes "rounds_to_nearest fl" "0 < file_size f"
    and "dataChannel s" "readyState (dc s) = RsOpen" "bufferedAmount (dc s) \<le> th"
    and "i \<le> j" "j \<le> length (file_chunks f)"
  shows "le_js
           (progress (run fl th (replicate i ReadResolved) (handleSendFile th (Some f) s)))
           (progress (run fl th (replicate j ReadResolved) (handleSendFile th (Some f) s)))"
proof -
  let ?n = "\<lambda>k. length (concat (take k (file_chunks f)))"
  have le: "?n i \<le> ?n j" using assms(6) by (rule length_concat_take_mono)
  have i: "i \<le> length (file_chunks f)" using assms(6,7) by simp
  show ?thesis
    using percent_mono[OF assms(1,2) le] percent_nonneg[OF assms(1,2), of "?n j"] assms(6)
    by (simp add: sender_progress_after[OF assms(3-5) i] sender_progress_after[OF assms(3-5,7)])
qed

section \<open>The claims\<close>

text \<open>
  C7. Teardown is idempotent. \<open>cleanup\<close> has no failing branch: it closes the channel and
  the connection only through a ref that is not null and clears the ref, so a second call
  finds both refs null. After \<open>cleanup\<close>, after the channel's \<open>close\<close> event, and after
  the connection has reported \<open>failed\<close> or \<open>disconnected\<close> (whose handler runs \<open>cleanup\<close>
  and then shows a toast), one more \<open>cleanup\<close> leaves the whole state as it is, the
  connection status, transfer mode, progress, received file and both handles included.
\<close>

theorem cleanup_idempotent:
  "cleanup (cleanup s) = cleanup s \<and>
   cleanup (onclose s) = onclose s \<and>
   cleanup (onconnectionstatechange PcFailed s) = toast ''Disconnected'' (cleanup s) \<and>
   cleanup (onconnectionstatechange PcDisconnected s) = toast ''Disconnected'' (cleanup s)"
  by (simp add: cleanup_def Let_def onclose_def onconnectionstatechange_def toast_def)

text \<open>
  C10. \<open>cleanup\<close> sets the received file to \<open>null\<close> and the progress to \<open>0\<close>, and the
  channel's \<open>close\<close> event runs \<open>cleanup\<close>. So a file that was received completely, and
  that \<open>downloadFile\<close> would offer, is gone once the channel has closed: \<open>downloadFile\<close>
  then returns without a download.
\<close>

theorem close_discards_received_file:
  "downloadFile (receive fl (Text (Metadata name sz) # map Binary chunks @ [Text Eof]) r)
     = Some (name, concat chunks) \<and>
   downloadFile (onclose (receive fl (Text (Metadata name sz) # map Binary chunks @ [Text Eof]) r))
     = None \<and>
   receivedFile (onclose s) = None \<and> progress (onclose s) = Num 0 \<and>
   downloadFile (onclose s) = None"
  by (simp add: receive_Cons receive_append receive_binaries receive_Nil downloadFile_def
      onclose_def cleanup_def Let_def toast_def)

text \<open>
  C6, as stated, fails: a binary frame that arrives before any metadata frame is not
  rejected. In the initial state the one-byte frame is stored in \<open>receivedChunks\<close>,
  counted in \<open>bytesReceived\<close> and reported as progress \<open>(1 / 0) * 100\<close>, which is
  \<open>Infinity\<close>; the transfer mode stays \<open>idle\<close> and no toast is shown.
\<close>

theorem binary_before_metadata_counterexample:
  "receivedChunks (onmessage (\<lambda>x. x) (Binary [1]) init) = [[1]] \<and>
   bytesReceived (onmessage (\<lambda>x. x) (Binary [1]) init) = 1 \<and>
   progress (onmessage (\<lambda>x. x) (Binary [1]) init) = PosInfinity \<and>
   transferMode (onmessage (\<lambda>x. x) (Binary [1]) init) = Idle \<and>
   toasts (onmessage (\<lambda>x. x) (Binary [1]) init) = []"
  by (simp add: init_def percent_def divide_js_def)

text \<open>
  C6, amended. Binary frames that arrive before any metadata frame are accepted: each is
  appended to the receive buffer and counted, no error is raised and the transfer mode
  is unchanged; an eof frame that follows turns the frames accumulated so far into the
  received file.
\<close>

theorem binary_before_metadata_accepted:
  "receivedChunks (receive fl (map Binary ds) init) = ds \<and>
   bytesReceived (receive fl (map Binary ds) init) = length (concat ds) \<and>
   transferMode (receive fl (map Binary ds) init) = Idle \<and>
   receivedFile (receive fl (map Binary ds @ [Text Eof]) init) = Some (concat ds)"
  by (simp add: receive_append receive_binaries receive_Cons receive_Nil init_def toast_def)

text \<open>
  C2. The chunk round trip, for every file, whatever its size and however its stream cuts
  it into chunks. A transfer started on an open channel with no \<open>bufferedamountlow\<close>
  handler installed runs to its end when no backpressure arises and every read settles:
  the channel is then given exactly the frames of the transfer. And whatever events
  occur, in whatever order, once the eof frame is among the frames given to the channel,
  a receiver that handles these frames in order, starting in any state, ends with a
  received file equal to the content of the file sent.
\<close>

theorem chunk_round_trip:
  assumes "dataChannel s" and "readyState (dc s) = RsOpen" and "\<not> onbufferedamountlow (dc s)"
  shows "(bufferedAmount (dc s) \<le> threshold \<longrightarrow>
            sent (dc (run fl threshold (replicate (Suc (length (file_chunks f))) ReadResolved)
                        (handleSendFile threshold (Some f) s)))
              = sent (dc s) @ transfer_frames f) \<and>
         (\<forall>evs ms.
            sent (dc (run fl threshold evs (handleSendFile threshold (Some f) s))) = sent (dc s) @ ms \<and>
            Text Eof \<in> set ms \<longrightarrow>
            receivedFile (receive fl ms r) = Some (file_content f))"
proof (intro conjI impI allI)
  assume "bufferedAmount (dc s) \<le> threshold"
  then show "sent (dc (run fl threshold (replicate (Suc (length (file_chunks f))) ReadResolved)
                        (handleSendFile threshold (Some f) s)))
              = sent (dc s) @ transfer_frames f"
    using assms by (subst transfer_completes) simp_all
next
  fix evs ms
  assume a: "sent (dc (run fl threshold evs (handleSendFile threshold (Some f) s))) = sent (dc s) @ ms \<and>
            Text Eof \<in> set ms"
  have "sending_inv (sent (dc s)) f (run fl threshold evs (handleSendFile threshold (Some f) s))"
    by (rule inv_run, rule inv_handleSendFile) (use assms in simp_all)
  then consider j where "sent (dc s) @ ms =
      sent (dc s) @ Text (Metadata (file_name f) (file_size f)) # map Binary (take j (file_chunks f))"
    | "sent (dc s) @ ms = sent (dc s) @ transfer_frames f"
    unfolding sending_inv_def a[THEN conjunct1, symmetric] by blast
  then have "ms = transfer_frames f"
  proof cases
    case 1
    then have "ms = Text (Metadata (file_name f) (file_size f)) # map Binary (take j (file_chunks f))"
      by simp
    with a eof_not_in_prefix[of "file_name f" "file_size f" "take j (file_chunks f)"]
    show ?thesis by simp
  next
    case 2
    then show ?thesis by simp
  qed
  then show "receivedFile (receive fl ms r) = Some (file_content f)"
    by (simp add: receive_transfer_frames)
qed

theorem chunk_round_trip_witness:
  "dataChannel open_session \<and> readyState (dc open_session) = RsOpen \<and>
   \<not> onbufferedamountlow (dc open_session) \<and>
   sent (dc (run (\<lambda>x. x) 16 [ReadResolved, ReadResolved, ReadResolved]
               (handleSendFile 16 (Some sample_file) open_session)))
     = [Text (Metadata ''a.bin'' 3), Binary [1, 2], Binary [3], Text Eof] \<and>
   receivedFile
     (receive (\<lambda>x. x) [Text (Metadata ''a.bin'' 3), Binary [1, 2], Binary [3], Text Eof] init)
     = Some [1, 2, 3]"
proof -
  have o: "dataChannel open_session" "readyState (dc open_session) = RsOpen"
    "\<not> onbufferedamountlow (dc open_session)" "sent (dc open_session) = []"
    "bufferedAmount (dc open_session) \<le> 16"
    by (simp_all add: open_session_def init_def closed_channel_def)
  have f: "transfer_frames sample_file =
             [Text (Metadata ''a.bin'' 3), Binary [1, 2], Binary [3], Text Eof]"
    "file_content sample_file = [1, 2, 3]" "length (file_chunks sample_file) = 2"
    by (simp_all add: transfer_frames_def sample_file_def file_size_def file_content_def)
  have r: "replicate (Suc 2) ReadResolved = [ReadResolved, ReadResolved, ReadResolved]"
    by (simp add: numeral_2_eq_2)
  note t = chunk_round_trip [OF o(1,2,3), of 16 "\<lambda>x. x" sample_file init]
  from t o(5) have
    "sent (dc (run (\<lambda>x. x) 16 (replicate (Suc (length (file_chunks sample_file))) ReadResolved)
                 (handleSendFile 16 (Some sample_file) open_session)))
       = sent (dc open_session) @ transfer_frames sample_file"
    by blast
  then have 1: "sent (dc (run (\<lambda>x. x) 16 [ReadResolved, ReadResolved, ReadResolved]
                  (handleSendFile 16 (Some sample_file) open_session)))
       = [Text (Metadata ''a.bin'' 3), Binary [1, 2], Binary [3], Text Eof]"
    by (simp only: f r o(4) append_Nil)
  have
    "receivedFile
       (receive (\<lambda>x. x) [Text (Metadata ''a.bin'' 3), Binary [1, 2], Binary [3], Text Eof] init)
       = Some (file_content sample_file)"
    by (rule t [THEN conjunct2, rule_format,
          of "[ReadResolved, ReadResolved, ReadResolved]"]) (simp add: 1 o(4))
  with 1 o f show ?thesis by simp
qed

text \<open>
  C4. Backpressure. In every state a transfer reaches in which the loop is suspended on
  backpressure (the \<open>bufferedamountlow\<close> handler is installed), no frame is given to the
  channel by any sequence of events that does not contain the channel's
  \<open>bufferedamountlow\<close> event: neither settled reads, nor changes of the buffered amount
  or of the channel's state, nor incoming frames, nor teardown. And a pre-send check
  (the top of the loop, no read pending) that finds the buffered amount above the
  threshold on an open channel does nothing but install that handler.
\<close>

theorem backpressure_suspends_sending:
  assumes "dataChannel s0" and "readyState (dc s0) = RsOpen"
    and "\<not> onbufferedamountlow (dc s0)"
    and "s1 = run fl threshold evs1 (handleSendFile threshold (Some f) s0)"
    and "BufferedAmountLow \<notin> set evs2"
  shows "(onbufferedamountlow (dc s1) \<longrightarrow>
            sent (dc (run fl threshold evs2 s1)) = sent (dc s1)) \<and>
         (\<not> reading s \<and> dataChannel s \<and> readyState (dc s) = RsOpen \<and>
          threshold < bufferedAmount (dc s) \<longrightarrow>
            sendNextChunk threshold s = s\<lparr>dc := (dc s)\<lparr>onbufferedamountlow := True\<rparr>\<rparr> \<and>
            sent (dc (run fl threshold evs2 (sendNextChunk threshold s))) = sent (dc s))"
proof (intro conjI impI)
  assume h: "onbufferedamountlow (dc s1)"
  have "sending_inv (sent (dc s0)) f s1"
    unfolding assms(4) by (rule inv_run, rule inv_handleSendFile) (use assms in simp_all)
  with h have "\<not> reading s1"
    by (auto simp: sending_inv_def)
  then show "sent (dc (run fl threshold evs2 s1)) = sent (dc s1)"
    using run_quiet[of s1 evs2 fl threshold] assms(5) by simp
next
  assume a: "\<not> reading s \<and> dataChannel s \<and> readyState (dc s) = RsOpen \<and>
          threshold < bufferedAmount (dc s)"
  then show e: "sendNextChunk threshold s = s\<lparr>dc := (dc s)\<lparr>onbufferedamountlow := True\<rparr>\<rparr>"
    by (simp add: sendNextChunk_def)
  from a have "\<not> reading (sendNextChunk threshold s)"
    by (simp add: e)
  then show "sent (dc (run fl threshold evs2 (sendNextChunk threshold s))) = sent (dc s)"
    using run_quiet[of "sendNextChunk threshold s" evs2 fl threshold] assms(5)
    by (simp add: e)
qed

theorem backpressure_suspends_sending_witness:
  "dataChannel (step (\<lambda>x. x) 16 (Buffered 17) open_session) \<and>
   readyState (dc (step (\<lambda>x. x) 16 (Buffered 17) open_session)) = RsOpen \<and>
   \<not> onbufferedamountlow (dc (step (\<lambda>x. x) 16 (Buffered 17) open_session)) \<and>
   BufferedAmountLow \<notin> set [ReadResolved, Buffered 0, ReadResolved] \<and>
   onbufferedamountlow
     (dc (handleSendFile 16 (Some sample_file) (step (\<lambda>x. x) 16 (Buffered 17) open_session))) \<and>
   sent (dc (run (\<lambda>x. x) 16 [ReadResolved, Buffered 0, ReadResolved]
               (handleSendFile 16 (Some sample_file)
                  (step (\<lambda>x. x) 16 (Buffered 17) open_session))))
     = [Text (Metadata ''a.bin'' 3)] \<and>
   sent (dc (run (\<lambda>x. x) 16 [ReadResolved, Buffered 0, BufferedAmountLow, ReadResolved]
               (handleSendFile 16 (Some sample_file)
                  (step (\<lambda>x. x) 16 (Buffered 17) open_session))))
     = [Text (Metadata ''a.bin'' 3), Binary [1, 2]]"
proof -
  let ?s0 = "step (\<lambda>x. x) 16 (Buffered 17) open_session"
  let ?s1 = "handleSendFile 16 (Some sample_file) ?s0"
  have o: "dataChannel ?s0" "readyState (dc ?s0) = RsOpen" "\<not> onbufferedamountlow (dc ?s0)"
    by (simp_all add: open_session_def init_def closed_channel_def)
  have n: "BufferedAmountLow \<notin> set [ReadResolved, Buffered 0, ReadResolved]"
    by simp
  have s1: "onbufferedamountlow (dc ?s1)" "sent (dc ?s1) = [Text (Metadata ''a.bin'' 3)]"
    by (simp_all add: handleSendFile_def sendNextChunk_def send_def open_session_def init_def
        closed_channel_def sample_file_def file_size_def file_content_def)
  have r: "?s1 = run (\<lambda>x. x) 16 [] ?s1"
    by (simp add: run_Nil)
  from backpressure_suspends_sending [OF o r n] s1
  have q: "sent (dc (run (\<lambda>x. x) 16 [ReadResolved, Buffered 0, ReadResolved] ?s1))
        = [Text (Metadata ''a.bin'' 3)]"
    by simp
  have "sent (dc (run (\<lambda>x. x) 16 [ReadResolved, Buffered 0, BufferedAmountLow, ReadResolved] ?s1))
        = [Text (Metadata ''a.bin'' 3), Binary [1, 2]]"
    by (simp add: run_Cons run_Nil handleSendFile_def sendNextChunk_def send_def open_session_def
        init_def closed_channel_def sample_file_def file_size_def file_content_def
        read_resolved_def bufferedamountlow_def Let_def)
  with o n s1 q show ?thesis by simp
qed




text \<open>
  C8. The code does not do what the claim says: for every store and every session id
  \<open>cleanupSignalingSession\<close> throws. Line 55 passes a string as the first argument of
  \<open>doc\<close>, which rejects it, so \<open>deleteDoc\<close> on line 56 is never reached and the document
  stays. (\<open>deleteDoc\<close> itself is idempotent: lemma \<open>deleteDoc_idempotent\<close>.)
\<close>

theorem cleanupSignalingSession_throws:
  "cleanupSignalingSession st sessionId = Inl InvalidArgument"
  by (simp add: cleanupSignalingSession_def doc_def)

text \<open>
  C9. For every double \<open>random\<close> in \<open>[0, 1)\<close> and every rounding to nearest, \<open>generateId\<close>
  returns six decimal digits, the first of which is not \<open>0\<close>, and the number they denote
  lies between \<open>100000\<close> and \<open>999999\<close>.
\<close>

theorem generateId_six_digits:
  assumes "rounds_to_nearest fl" and "is_double random" and "0 \<le> random" and "random < 1"
  shows "length (generateId fl random) = 6 \<and>
         set (generateId fl random) \<subseteq> set ''0123456789'' \<and>
         hd (generateId fl random) \<noteq> CHR ''0'' \<and>
         100000 \<le> decimal_value (generateId fl random) \<and>
         decimal_value (generateId fl random) \<le> 999999"
proof -
  define x where "x = fl (100000 + fl (random * 900000))"
  define i where "i = \<lfloor>x\<rfloor>"
  define n where "n = nat i"
  have "random \<le> 1 - 1 / 2 ^ 53"
    using assms(2,4) by (rule double_below_one)
  with assms have x: "100000 \<le> x" "x < 1000000"
    using generateId_range[of fl random] by (simp_all add: x_def)
  then have i: "100000 \<le> i" "i < 1000000"
    unfolding i_def by linarith+
  then have n: "10 ^ 5 \<le> n" "n < 10 ^ Suc 5" "0 < n"
    unfolding n_def by simp_all
  have "generateId fl random = toString i"
    unfolding generateId_def i_def x_def ..
  with i have g: "generateId fl random = decimal n"
    by (simp add: toString_def n_def)
  from n(1,2) have "length (decimal n) = Suc 5" by (rule decimal_length)
  moreover from n have "100000 \<le> n" "n \<le> 999999" by simp_all
  ultimately show ?thesis
    using decimal_digits[of n] decimal_hd[OF n(3)]
    by (simp add: g decimal_value_decimal)
qed

theorem generateId_six_digits_witness:
  "rounds_to_nearest (\<lambda>x. x) \<and> is_double (1 / 2) \<and> (0::rat) \<le> 1 / 2 \<and> (1 / 2 :: rat) < 1 \<and>
   generateId (\<lambda>x. x) (1 / 2) = ''550000'' \<and> length (generateId (\<lambda>x. x) (1 / 2)) = 6"
proof -
  have r: "rounds_to_nearest (\<lambda>x. x)"
    by (simp add: rounds_to_nearest_def)
  have d: "is_double (1 / 2)"
    by (rule is_doubleI[of 1 "- 1"]) (simp_all add: power_int_minus)
  have g: "generateId (\<lambda>x. x) (1 / 2) = ''550000''"
    by (simp add: generateId_def toString_def decimal.simps digit_char_def)
  from generateId_six_digits [OF r d] g r d show ?thesis by simp
qed

text \<open>
  C3. On the sending side the progress is only ever set by \<open>setProgress(0)\<close> at the start
  and by \<open>(offset / file.size) * 100\<close> after a chunk; the branch that sends the eof frame
  does not set it. When the transfer has run to its end (channel open, no backpressure,
  every read settled) the last frame given to the channel is the eof frame and the
  progress is \<open>100\<close> if the file has content, but \<open>0\<close> for a file whose stream delivers
  no chunk, where the claim says \<open>100\<close>. (A stream that delivers only empty chunks would
  give \<open>NaN\<close>.) The rest of the claim holds: lemmas \<open>receiver_progress_monotone\<close> and
  \<open>sender_progress_monotone\<close>.
\<close>

theorem sender_progress_at_eof:
  assumes "rounds_to_nearest fl" and "dataChannel s" and "readyState (dc s) = RsOpen"
    and "bufferedAmount (dc s) \<le> threshold"
  shows "last (sent (dc (run fl threshold (replicate (Suc (length (file_chunks f))) ReadResolved)
                           (handleSendFile threshold (Some f) s)))) = Text Eof \<and>
         progress (run fl threshold (replicate (Suc (length (file_chunks f))) ReadResolved)
                     (handleSendFile threshold (Some f) s)) =
           (if file_chunks f = [] then Num 0
            else if file_size f = 0 then NaN
            else Num 100)"
proof -
  have "file_size f \<noteq> 0 \<Longrightarrow> percent fl (file_size f) (file_size f) = Num 100"
    using percent_full[OF assms(1), of "file_size f"] by simp
  moreover have "file_size f = 0 \<Longrightarrow> percent fl (file_size f) (file_size f) = NaN"
    by (simp add: percent_def divide_js_def)
  ultimately show ?thesis
    by (subst (1 2) transfer_completes[OF assms(2-4)]) (simp add: transfer_frames_def)
qed

theorem sender_progress_at_eof_witness:
  "rounds_to_nearest (\<lambda>x. x) \<and> dataChannel open_session \<and>
   readyState (dc open_session) = RsOpen \<and> bufferedAmount (dc open_session) \<le> 16 \<and>
   last (sent (dc (run (\<lambda>x. x) 16 [ReadResolved] (handleSendFile 16 (Some empty_file) open_session))))
     = Text Eof \<and>
   progress (run (\<lambda>x. x) 16 [ReadResolved] (handleSendFile 16 (Some empty_file) open_session))
     = Num 0"
proof -
  have r: "rounds_to_nearest (\<lambda>x. x)"
    by (simp add: rounds_to_nearest_def)
  have o: "dataChannel open_session" "readyState (dc open_session) = RsOpen"
    "bufferedAmount (dc open_session) \<le> 16"
    by (simp_all add: open_session_def init_def closed_channel_def)
  have e: "file_chunks empty_file = []"
    by (simp add: empty_file_def)
  from sender_progress_at_eof [OF r o, of empty_file] r o show ?thesis
    by (simp add: e)
qed

text \<open>
  C5. The transfer of a file of size zero: the channel is given one metadata frame and
  one eof frame and no chunk, no division takes place, and the receiver ends with an
  empty received file and progress \<open>100\<close>. The sender shows the success toast with its
  progress still at \<open>0\<close>, where the claim says \<open>100\<close>.
\<close>

theorem zero_byte_transfer:
  assumes "dataChannel s" and "readyState (dc s) = RsOpen"
    and "bufferedAmount (dc s) \<le> threshold" and "file_chunks f = []"
  shows "sent (dc (run fl threshold [ReadResolved] (handleSendFile threshold (Some f) s)))
           = sent (dc s) @ [Text (Metadata (file_name f) 0), Text Eof] \<and>
         progress (run fl threshold [ReadResolved] (handleSendFile threshold (Some f) s)) = Num 0 \<and>
         toasts (run fl threshold [ReadResolved] (handleSendFile threshold (Some f) s))
           = toasts s @ [''Success''] \<and>
         progress (receive fl [Text (Metadata (file_name f) 0), Text Eof] r) = Num 100 \<and>
         receivedFile (receive fl [Text (Metadata (file_name f) 0), Text Eof] r) = Some []"
proof -
  have "run fl threshold [ReadResolved] (handleSendFile threshold (Some f) s) =
        run fl threshold (replicate (Suc (length (file_chunks f))) ReadResolved)
          (handleSendFile threshold (Some f) s)"
    by (simp add: assms(4))
  then show ?thesis
    by (simp only: transfer_completes[OF assms(1-3)])
       (simp add: assms(4) transfer_frames_def file_size_def file_content_def
          receive_Cons receive_Nil toast_def)
qed

theorem zero_byte_transfer_witness:
  "dataChannel open_session \<and> readyState (dc open_session) = RsOpen \<and>
   bufferedAmount (dc open_session) \<le> 16 \<and> file_chunks empty_file = [] \<and>
   sent (dc (run (\<lambda>x. x) 16 [ReadResolved] (handleSendFile 16 (Some empty_file) open_session)))
     = [Text (Metadata ''empty.txt'' 0), Text Eof] \<and>
   progress (run (\<lambda>x. x) 16 [ReadResolved] (handleSendFile 16 (Some empty_file) open_session))
     = Num 0 \<and>
   progress (receive (\<lambda>x. x) [Text (Metadata ''empty.txt'' 0), Text Eof] init) = Num 100"
proof -
  have o: "dataChannel open_session" "readyState (dc open_session) = RsOpen"
    "bufferedAmount (dc open_session) \<le> 16"
    by (simp_all add: open_session_def init_def closed_channel_def)
  have e: "file_chunks empty_file = []" "file_name empty_file = ''empty.txt''"
    by (simp_all add: empty_file_def)
  have w: "sent (dc open_session) = []"
    by (simp add: open_session_def init_def closed_channel_def)
  from zero_byte_transfer [OF o e(1), of "\<lambda>x. x" init] o e w show ?thesis
    by simp
qed

end
